theory Spec2Isabelle
  imports Main
begin

section \<open>Python strings and lists\<close>

text \<open>
  A Python \<open>str\<close> is a sequence of code points. The model covers the code points below
  256 (type \<^typ>\<open>char\<close>); \<open>str.isspace\<close> and \<open>str.isdigit\<close> are written out on that range.
\<close>

datatype py_error = IndexError | FileNotFoundError | UnicodeDecodeError

definition isspace :: "char \<Rightarrow> bool" where
  \<comment> \<open>tab, LF, VT, FF, CR, the separators 28..31, space, NEL and the no-break space\<close>
  "isspace c =
     (let n = (of_char c :: nat)
      in (9 \<le> n \<and> n \<le> 13) \<or> (28 \<le> n \<and> n \<le> 32) \<or> n = 133 \<or> n = 160)"

definition isdigit :: "char \<Rightarrow> bool" where
  \<comment> \<open>the decimal digits and the superscripts two, three and one\<close>
  "isdigit c =
     (let n = (of_char c :: nat)
      in (48 \<le> n \<and> n \<le> 57) \<or> n = 178 \<or> n = 179 \<or> n = 185)"

definition strip :: "string \<Rightarrow> string" where
  \<comment> \<open>\<open>s.strip()\<close>\<close>
  "strip s = rev (dropWhile isspace (rev (dropWhile isspace s)))"

definition startswith :: "string \<Rightarrow> string \<Rightarrow> bool" where
  \<comment> \<open>\<open>s.startswith(p)\<close>\<close>
  "startswith s p = (take (length p) s = p)"

fun contains :: "string \<Rightarrow> string \<Rightarrow> bool" where
  \<comment> \<open>\<open>sub in s\<close>\<close>
  "contains sub [] = (sub = [])"
| "contains sub (c # cs) = (startswith (c # cs) sub \<or> contains sub cs)"

fun find_sep :: "string \<Rightarrow> string \<Rightarrow> (string \<times> string) option" where
  \<comment> \<open>the text before and after the leftmost occurrence of \<open>sep\<close>, if there is one\<close>
  "find_sep sep [] = (if sep = [] then Some ([], []) else None)"
| "find_sep sep (c # cs) =
     (if startswith (c # cs) sep then Some ([], drop (length sep) (c # cs))
      else (case find_sep sep cs of
              None \<Rightarrow> None
            | Some (b, a) \<Rightarrow> Some (c # b, a)))"

definition split_once :: "string \<Rightarrow> string \<Rightarrow> string list" where
  \<comment> \<open>\<open>s.split(sep, 1)\<close>\<close>
  "split_once sep s = (case find_sep sep s of None \<Rightarrow> [s] | Some (b, a) \<Rightarrow> [b, a])"

fun split_chr :: "char \<Rightarrow> string \<Rightarrow> string list" where
  \<comment> \<open>\<open>s.split(c)\<close> for a separator of one character\<close>
  "split_chr sep [] = [[]]"
| "split_chr sep (c # cs) =
     (if c = sep then [] # split_chr sep cs
      else (case split_chr sep cs of
              [] \<Rightarrow> [[c]]
            | p # ps \<Rightarrow> (c # p) # ps))"

definition index :: "'a list \<Rightarrow> nat \<Rightarrow> py_error + 'a" where
  \<comment> \<open>\<open>xs[n]\<close> for \<open>n \<ge> 0\<close>: out of range raises\<close>
  "index xs n = (if n < length xs then Inr (xs ! n) else Inl IndexError)"

section \<open>The document\<close>

text \<open>
  The document library is not part of the repository. The model records every call that
  appends to the document, with its arguments: \<open>add_heading(text, level)\<close>, the paragraph
  of a code block (style \<open>No Spacing\<close>, runs in \<open>Courier New\<close>), \<open>add_paragraph\<close> with the
  styles \<open>List Bullet\<close> and \<open>List Number\<close>, and a plain paragraph with its \<open>add_run\<close> calls.
\<close>

record run =
  run_text :: string
  font_name :: "string option"

datatype block =
    Heading nat string
  | CodeBlock string
  | ListBullet string
  | ListNumber string
  | Paragraph "run list"

definition add_runs :: "string list \<Rightarrow> run list" where
  \<comment> \<open>\<open>for j, part in enumerate(parts)\<close>\<close>
  "add_runs parts =
     map (\<lambda>(j, part).
            if j mod 2 = 0 then \<lparr>run_text = part, font_name = None\<rparr>
            else \<lparr>run_text = part, font_name = Some ''Courier New''\<rparr>)
         (enumerate 0 parts)"

section \<open>convert\_markdown\_to\_word\<close>

definition fence :: string where
  "fence = [CHR 0x60, CHR 0x60, CHR 0x60]"

function collect_code :: "string list \<Rightarrow> nat \<Rightarrow> string list \<Rightarrow> py_error + (nat \<times> string list)" where
  \<comment> \<open>the inner \<open>while\<close>: the cursor and \<open>code_lines\<close> when it ends\<close>
  "collect_code lines i code_lines =
     (if i < length lines then
        (case index lines i of
           Inl e \<Rightarrow> Inl e
         | Inr l \<Rightarrow>
             if \<not> startswith (strip l) fence
             then collect_code lines (i + 1) (code_lines @ [l])
             else Inr (i, code_lines))
      else Inr (i, code_lines))"
  by pat_completeness auto
termination
  by (relation "measure (\<lambda>(lines, i, code_lines). length lines - i)") auto

declare collect_code.simps [simp del]

definition loop_body :: "string list \<Rightarrow> nat \<Rightarrow> block list \<Rightarrow> py_error + (nat \<times> block list)" where
  \<comment> \<open>one iteration of the outer \<open>while\<close>: the cursor and the document after it\<close>
  "loop_body lines i doc =
     (case index lines i of
        Inl e \<Rightarrow> Inl e
      | Inr l \<Rightarrow>
          let line = strip l in
          if line = [] then Inr (i + 1, doc)
          else if startswith line ''# '' then Inr (i + 1, doc @ [Heading 1 (drop 2 line)])
          else if startswith line ''## '' then Inr (i + 1, doc @ [Heading 2 (drop 3 line)])
          else if startswith line ''### '' then Inr (i + 1, doc @ [Heading 3 (drop 4 line)])
          else if startswith line ''#### '' then Inr (i + 1, doc @ [Heading 4 (drop 5 line)])
          else if startswith line fence then
            (case collect_code lines (i + 1) [] of
               Inl e \<Rightarrow> Inl e
             | Inr (i', code_lines) \<Rightarrow>
                 if code_lines \<noteq> [] then Inr (i', doc @ [CodeBlock (concat code_lines)])
                 else Inr (i', doc))
          else if startswith line ''- '' \<or> startswith line ''* '' then
            Inr (i + 1, doc @ [ListBullet (drop 2 line)])
          else
            (case index line 0 of
               Inl e \<Rightarrow> Inl e
             | Inr c \<Rightarrow>
                 if isdigit c \<and> contains ''. '' (take 5 line) then
                   (case index (split_once ''. '' line) 1 of
                      Inl e \<Rightarrow> Inl e
                    | Inr t \<Rightarrow> Inr (i + 1, doc @ [ListNumber t]))
                 else Inr (i + 1, doc @ [Paragraph (add_runs (split_chr (CHR 0x60) line))])))"

partial_function (option) convert_loop ::
    "string list \<Rightarrow> nat \<Rightarrow> block list \<Rightarrow> (py_error + block list) option" where
  \<comment> \<open>the outer \<open>while i < len(lines)\<close>; \<open>None\<close> would be a loop that never ends\<close>
  "convert_loop lines i doc =
     (if i < length lines then
        (case loop_body lines i doc of
           Inl e \<Rightarrow> Some (Inl e)
         | Inr (i', doc') \<Rightarrow> convert_loop lines i' doc')
      else Some (Inr doc))"

declare convert_loop.simps [code]

definition convert :: "string \<Rightarrow> (py_error + block list) option" where
  \<comment> \<open>the document built from \<open>md_content\<close>: \<open>lines = md_content.split('\n')\<close>, \<open>i = 0\<close>\<close>
  "convert md_content = convert_loop (split_chr (CHR 0x0A) md_content) 0 []"

section \<open>The script\<close>

text \<open>
  The file system maps a path to what the file holds; \<open>print\<close> appends a line to the
  standard output. Whether the imports at the top of the script succeed is the parameter
  \<open>packages_installed\<close>.
\<close>

datatype file_content = TextFile string | DocxFile "block list"

record world =
  files :: "string \<rightharpoonup> file_content"
  stdout :: "string list"

datatype outcome = Exit nat | Raised py_error

definition convert_markdown_to_word ::
    "string \<Rightarrow> string \<Rightarrow> world \<Rightarrow> (py_error + world) option" where
  "convert_markdown_to_word md_file docx_file w =
     (case files w md_file of
        None \<Rightarrow> Some (Inl FileNotFoundError)
      | Some (DocxFile d) \<Rightarrow> Some (Inl UnicodeDecodeError)
      | Some (TextFile md_content) \<Rightarrow>
          (case convert md_content of
             None \<Rightarrow> None
           | Some (Inl e) \<Rightarrow> Some (Inl e)
           | Some (Inr doc) \<Rightarrow>
               Some (Inr (w\<lparr>files := (files w)(docx_file \<mapsto> DocxFile doc),
                            stdout := stdout w @
                              [''Successfully converted '' @ md_file @ '' to '' @ docx_file]\<rparr>))))"

definition md_file :: string where
  "md_file = ''BONZAI_COMPREHENSIVE_SUMMARY.md''"

definition docx_file :: string where
  "docx_file = ''BONZAI_COMPREHENSIVE_SUMMARY.docx''"

definition script :: "bool \<Rightarrow> world \<Rightarrow> (world \<times> outcome) option" where
  \<comment> \<open>the import guard, then the \<open>__main__\<close> block\<close>
  "script packages_installed w =
     (if \<not> packages_installed then
        Some (w\<lparr>stdout := stdout w @
                 [''Error: Required packages not installed.'',
                  ''Please install: pip install python-docx markdown'']\<rparr>, Exit 1)
      else if files w md_file = None then
        Some (w\<lparr>stdout := stdout w @ [''Error: '' @ md_file @ '' not found'']\<rparr>, Exit 1)
      else
        (case convert_markdown_to_word md_file docx_file w of
           None \<Rightarrow> None
         | Some (Inl e) \<Rightarrow> Some (w, Raised e)
         | Some (Inr w') \<Rightarrow> Some (w', Exit 0)))"

section \<open>Derived notions used to state the properties\<close>

definition emitted :: "string list \<Rightarrow> nat \<Rightarrow> block list" where
  \<comment> \<open>the blocks that the iteration at line \<open>i\<close> appends\<close>
  "emitted lines i = (case loop_body lines i [] of Inl e \<Rightarrow> [] | Inr (i', doc') \<Rightarrow> doc')"

definition advance :: "string list \<Rightarrow> nat \<Rightarrow> nat" where
  \<comment> \<open>the number of lines that the iteration at line \<open>i\<close> moves the cursor by\<close>
  "advance lines i =
     (if startswith (strip (lines ! i)) fence
      then 1 + length (takeWhile (\<lambda>l. \<not> startswith (strip l) fence) (drop (i + 1) lines))
      else 1)"

function visited :: "string list \<Rightarrow> nat \<Rightarrow> nat list" where
  \<comment> \<open>the cursor values at which the outer loop runs its body, from \<open>i\<close> on; the test
      \<open>i < i'\<close> makes the recursion well-founded without a lemma about \<open>loop_body\<close>\<close>
  "visited lines i =
     (if i < length lines then
        (case loop_body lines i [] of
           Inl e \<Rightarrow> [i]
         | Inr (i', doc') \<Rightarrow> if i < i' then i # visited lines i' else [i])
      else [])"
  by pat_completeness auto
termination
  by (relation "measure (\<lambda>(lines, i). length lines - i)") auto

declare visited.simps [simp del]

section \<open>Strings: auxiliary facts\<close>

lemma index_in_range: "n < length xs \<Longrightarrow> index xs n = Inr (xs ! n)"
  by (simp add: index_def)

lemma startswith_Cons:
  "startswith s (p # ps) = (case s of [] \<Rightarrow> False | c # cs \<Rightarrow> c = p \<and> startswith cs ps)"
  by (cases s) (auto simp: startswith_def)

lemma startswith_iff_append: "startswith s p \<longleftrightarrow> (\<exists>t. s = p @ t)"
proof
  assume "startswith s p"
  then have "s = p @ drop (length p) s"
    by (metis append_take_drop_id startswith_def)
  then show "\<exists>t. s = p @ t" ..
next
  assume "\<exists>t. s = p @ t"
  then show "startswith s p" by (auto simp: startswith_def)
qed

lemma contains_iff_append: "contains sub s \<longleftrightarrow> (\<exists>a b. s = a @ sub @ b)"
proof (induction s)
  case Nil
  then show ?case by auto
next
  case (Cons c cs)
  show ?case
  proof
    assume "contains sub (c # cs)"
    then consider "startswith (c # cs) sub" | "contains sub cs" by auto
    then show "\<exists>a b. c # cs = a @ sub @ b"
    proof cases
      case 1
      then obtain t where "c # cs = sub @ t" by (auto simp: startswith_iff_append)
      then have "c # cs = [] @ sub @ t" by simp
      then show ?thesis by blast
    next
      case 2
      then obtain a b where "cs = a @ sub @ b" using Cons.IH by auto
      then have "c # cs = (c # a) @ sub @ b" by simp
      then show ?thesis by blast
    qed
  next
    assume "\<exists>a b. c # cs = a @ sub @ b"
    then obtain a b where ab: "c # cs = a @ sub @ b" by auto
    show "contains sub (c # cs)"
    proof (cases a)
      case Nil
      with ab have "startswith (c # cs) sub" by (auto simp: startswith_iff_append)
      then show ?thesis by simp
    next
      case (Cons x a')
      with ab have "cs = a' @ sub @ b" by simp
      then have "contains sub cs" using Cons.IH by blast
      then show ?thesis by simp
    qed
  qed
qed

lemma contains_take: "contains sub (take n s) \<Longrightarrow> contains sub s"
proof -
  assume "contains sub (take n s)"
  then obtain a b where "take n s = a @ sub @ b" by (auto simp: contains_iff_append)
  then have "s = a @ sub @ (b @ drop n s)"
    by (metis append.assoc append_take_drop_id)
  then show ?thesis unfolding contains_iff_append by blast
qed

lemma find_sep_None: "find_sep sep s = None \<longleftrightarrow> \<not> contains sep s"
  by (induction s) (auto split: option.splits simp: startswith_def)

lemma find_sep_Some:
  "find_sep sep s = Some (b, a) \<Longrightarrow> s = b @ sep @ a"
proof (induction s arbitrary: b)
  case Nil
  then show ?case by (auto split: if_splits)
next
  case (Cons c cs)
  show ?case
  proof (cases "startswith (c # cs) sep")
    case True
    with Cons.prems have "b = []" "a = drop (length sep) (c # cs)" by auto
    moreover from True have "c # cs = sep @ drop (length sep) (c # cs)"
      by (metis append_take_drop_id startswith_def)
    ultimately show ?thesis by simp
  next
    case False
    with Cons.prems obtain b' where "find_sep sep cs = Some (b', a)" "b = c # b'"
      by (auto split: option.splits)
    with Cons.IH show ?thesis by auto
  qed
qed

lemma find_sep_first:
  "find_sep sep s = Some (b, a) \<Longrightarrow> s = b' @ sep @ a' \<Longrightarrow> length b \<le> length b'"
proof (induction s arbitrary: b b')
  case Nil
  then show ?case by (auto split: if_splits)
next
  case (Cons c cs)
  show ?case
  proof (cases "startswith (c # cs) sep")
    case True
    with Cons.prems(1) have "b = []" by simp
    then show ?thesis by simp
  next
    case False
    with Cons.prems(1) obtain b0 where b0: "find_sep sep cs = Some (b0, a)" "b = c # b0"
      by (auto split: option.splits)
    from False Cons.prems(2) have "b' \<noteq> []"
      by (auto simp: startswith_iff_append)
    then obtain b1 where b1: "b' = c # b1" "cs = b1 @ sep @ a'"
      using Cons.prems(2) by (cases b') auto
    from Cons.IH[OF b0(1) b1(2)] b0(2) b1(1) show ?thesis by simp
  qed
qed

lemma concat_split_chr: "concat (split_chr c s) = filter (\<lambda>x. x \<noteq> c) s"
  by (induction s) (auto split: list.splits)

section \<open>The loops: auxiliary facts\<close>

lemma collect_code_eq:
  "collect_code lines i acc =
     Inr (i + length (takeWhile (\<lambda>l. \<not> startswith (strip l) fence) (drop i lines)),
          acc @ takeWhile (\<lambda>l. \<not> startswith (strip l) fence) (drop i lines))"
proof (induction lines i acc rule: collect_code.induct)
  case (1 lines i code_lines)
  show ?case
  proof (cases "i < length lines")
    case False
    then show ?thesis by (simp add: collect_code.simps[of lines i])
  next
    case True
    then have d: "drop i lines = lines ! i # drop (Suc i) lines"
      by (simp add: Cons_nth_drop_Suc)
    from True have ix: "index lines i = Inr (lines ! i)" by (rule index_in_range)
    show ?thesis
    proof (cases "startswith (strip (lines ! i)) fence")
      case True
      with \<open>i < length lines\<close> ix d show ?thesis
        by (simp add: collect_code.simps[of lines i])
    next
      case False
      with "1.IH"[OF \<open>i < length lines\<close> ix False] \<open>i < length lines\<close> ix d show ?thesis
        by (simp add: collect_code.simps[of lines i])
    qed
  qed
qed

lemma startswith_fence_nonempty: "startswith s fence \<Longrightarrow> s \<noteq> []"
  by (auto simp: fence_def startswith_Cons)

lemma split_once_contains:
  assumes "contains sep s"
  shows "\<exists>b a. split_once sep s = [b, a] \<and> find_sep sep s = Some (b, a)"
proof -
  from assms have "find_sep sep s \<noteq> None" by (simp add: find_sep_None)
  then obtain b a where "find_sep sep s = Some (b, a)" by auto
  then show ?thesis by (simp add: split_once_def)
qed

lemma isdigit_not_marker:
  "isdigit c \<Longrightarrow> c \<noteq> CHR ''#'' \<and> c \<noteq> CHR 0x60 \<and> c \<noteq> CHR ''-'' \<and> c \<noteq> CHR ''*''"
  by (auto simp: isdigit_def)

lemma loop_body_empty:
  "i < length lines \<Longrightarrow> strip (lines ! i) = [] \<Longrightarrow> loop_body lines i doc = Inr (i + 1, doc)"
  by (simp add: loop_body_def index_in_range)

lemma loop_body_heading1:
  "i < length lines \<Longrightarrow> startswith (strip (lines ! i)) ''# '' \<Longrightarrow>
   loop_body lines i doc = Inr (i + 1, doc @ [Heading 1 (drop 2 (strip (lines ! i)))])"
  by (auto simp: loop_body_def index_in_range Let_def startswith_Cons)

lemma loop_body_heading2:
  "i < length lines \<Longrightarrow> startswith (strip (lines ! i)) ''## '' \<Longrightarrow>
   loop_body lines i doc = Inr (i + 1, doc @ [Heading 2 (drop 3 (strip (lines ! i)))])"
  by (auto simp: loop_body_def index_in_range Let_def startswith_Cons split: list.splits)

lemma loop_body_heading3:
  "i < length lines \<Longrightarrow> startswith (strip (lines ! i)) ''### '' \<Longrightarrow>
   loop_body lines i doc = Inr (i + 1, doc @ [Heading 3 (drop 4 (strip (lines ! i)))])"
  by (auto simp: loop_body_def index_in_range Let_def startswith_Cons split: list.splits)

lemma loop_body_heading4:
  "i < length lines \<Longrightarrow> startswith (strip (lines ! i)) ''#### '' \<Longrightarrow>
   loop_body lines i doc = Inr (i + 1, doc @ [Heading 4 (drop 5 (strip (lines ! i)))])"
  by (auto simp: loop_body_def index_in_range Let_def startswith_Cons split: list.splits)

lemma loop_body_fence:
  assumes "i < length lines" and "startswith (strip (lines ! i)) fence"
  shows "loop_body lines i doc =
     Inr (i + 1 + length (takeWhile (\<lambda>l. \<not> startswith (strip l) fence) (drop (i + 1) lines)),
          if takeWhile (\<lambda>l. \<not> startswith (strip l) fence) (drop (i + 1) lines) = [] then doc
          else doc @ [CodeBlock (concat (takeWhile (\<lambda>l. \<not> startswith (strip l) fence)
                                           (drop (i + 1) lines)))])"
proof -
  from assms(2) have "strip (lines ! i) \<noteq> []"
    and "\<not> startswith (strip (lines ! i)) ''# ''"
    and "\<not> startswith (strip (lines ! i)) ''## ''"
    and "\<not> startswith (strip (lines ! i)) ''### ''"
    and "\<not> startswith (strip (lines ! i)) ''#### ''"
    by (auto simp: fence_def startswith_Cons split: list.splits)
  with assms show ?thesis
    by (simp add: loop_body_def index_in_range Let_def collect_code_eq)
qed

lemma fence_excl:
  assumes "startswith s fence"
  shows "s \<noteq> []"
    and "\<not> startswith s ''# ''"
    and "\<not> startswith s ''## ''"
    and "\<not> startswith s ''### ''"
    and "\<not> startswith s ''#### ''"
  using assms by (auto simp: fence_def startswith_Cons split: list.splits)

lemma loop_body_bullet:
  assumes "i < length lines"
    and "startswith (strip (lines ! i)) ''- '' \<or> startswith (strip (lines ! i)) ''* ''"
  shows "loop_body lines i doc = Inr (i + 1, doc @ [ListBullet (drop 2 (strip (lines ! i)))])"
proof -
  from assms(2) have "strip (lines ! i) \<noteq> []"
    and "\<not> startswith (strip (lines ! i)) ''# ''"
    and "\<not> startswith (strip (lines ! i)) ''## ''"
    and "\<not> startswith (strip (lines ! i)) ''### ''"
    and "\<not> startswith (strip (lines ! i)) ''#### ''"
    and "\<not> startswith (strip (lines ! i)) fence"
    by (auto simp: fence_def startswith_Cons split: list.splits)
  with assms show ?thesis
    by (simp add: loop_body_def index_in_range Let_def)
qed

lemma digit_excl:
  assumes "s \<noteq> []" and "isdigit (hd s)"
  shows "\<not> startswith s ''# ''"
    and "\<not> startswith s ''## ''"
    and "\<not> startswith s ''### ''"
    and "\<not> startswith s ''#### ''"
    and "\<not> startswith s fence"
    and "\<not> startswith s ''- ''"
    and "\<not> startswith s ''* ''"
  using assms isdigit_not_marker[of "hd s"]
  by (auto simp: fence_def startswith_Cons split: list.splits)

lemma loop_body_number:
  assumes "i < length lines" and "strip (lines ! i) \<noteq> []"
    and "isdigit (hd (strip (lines ! i)))"
    and "contains ''. '' (take 5 (strip (lines ! i)))"
    and "find_sep ''. '' (strip (lines ! i)) = Some (b, t)"
  shows "loop_body lines i doc = Inr (i + 1, doc @ [ListNumber t])"
proof -
  have ix: "index (strip (lines ! i)) 0 = Inr (hd (strip (lines ! i)))"
    using assms(2) by (simp add: index_def hd_conv_nth)
  have sp: "index (split_once ''. '' (strip (lines ! i))) 1 = Inr t"
    using assms(5) by (simp add: split_once_def index_def)
  have il: "index lines i = Inr (lines ! i)"
    using assms(1) by (rule index_in_range)
  from digit_excl[OF assms(2,3)] assms ix sp il show ?thesis
    by (simp add: loop_body_def Let_def)
qed

lemma loop_body_paragraph:
  assumes "i < length lines" and "strip (lines ! i) \<noteq> []"
    and "\<not> startswith (strip (lines ! i)) ''# ''"
    and "\<not> startswith (strip (lines ! i)) ''## ''"
    and "\<not> startswith (strip (lines ! i)) ''### ''"
    and "\<not> startswith (strip (lines ! i)) ''#### ''"
    and "\<not> startswith (strip (lines ! i)) fence"
    and "\<not> startswith (strip (lines ! i)) ''- ''"
    and "\<not> startswith (strip (lines ! i)) ''* ''"
    and "\<not> (isdigit (hd (strip (lines ! i))) \<and> contains ''. '' (take 5 (strip (lines ! i))))"
  shows "loop_body lines i doc =
           Inr (i + 1, doc @ [Paragraph (add_runs (split_chr (CHR 0x60) (strip (lines ! i))))])"
proof -
  have ix: "index (strip (lines ! i)) 0 = Inr (hd (strip (lines ! i)))"
    using assms(2) by (simp add: index_def hd_conv_nth)
  have il: "index lines i = Inr (lines ! i)"
    using assms(1) by (rule index_in_range)
  from assms ix il show ?thesis
    by (auto simp: loop_body_def Let_def)
qed

lemma loop_body_advance:
  assumes "i < length lines"
  shows "\<exists>bs. loop_body lines i doc = Inr (i + advance lines i, doc @ bs)"
proof -
  let ?line = "strip (lines ! i)"
  consider (empty) "?line = []"
    | (h1) "startswith ?line ''# ''"
    | (h2) "startswith ?line ''## ''"
    | (h3) "startswith ?line ''### ''"
    | (h4) "startswith ?line ''#### ''"
    | (fence) "startswith ?line fence"
    | (bullet) "startswith ?line ''- '' \<or> startswith ?line ''* ''"
    | (number) "?line \<noteq> []" "isdigit (hd ?line)" "contains ''. '' (take 5 ?line)"
    | (para) "?line \<noteq> []" "\<not> startswith ?line ''# ''" "\<not> startswith ?line ''## ''"
        "\<not> startswith ?line ''### ''" "\<not> startswith ?line ''#### ''"
        "\<not> startswith ?line fence" "\<not> startswith ?line ''- ''" "\<not> startswith ?line ''* ''"
        "\<not> (isdigit (hd ?line) \<and> contains ''. '' (take 5 ?line))"
    by blast
  then show ?thesis
  proof cases
    case empty
    then have "\<not> startswith ?line fence" using startswith_fence_nonempty by auto
    with empty assms show ?thesis by (simp add: loop_body_empty advance_def)
  next
    case h1
    then have "\<not> startswith ?line fence" using fence_excl(2) by blast
    with h1 assms show ?thesis by (simp add: loop_body_heading1 advance_def)
  next
    case h2
    then have "\<not> startswith ?line fence" using fence_excl(3) by blast
    with h2 assms show ?thesis by (simp add: loop_body_heading2 advance_def)
  next
    case h3
    then have "\<not> startswith ?line fence" using fence_excl(4) by blast
    with h3 assms show ?thesis by (simp add: loop_body_heading3 advance_def)
  next
    case h4
    then have "\<not> startswith ?line fence" using fence_excl(5) by blast
    with h4 assms show ?thesis by (simp add: loop_body_heading4 advance_def)
  next
    case fence
    with assms show ?thesis by (simp add: loop_body_fence advance_def)
  next
    case bullet
    then have "\<not> startswith ?line fence"
      by (auto simp: fence_def startswith_Cons split: list.splits)
    with loop_body_bullet[OF assms bullet] show ?thesis by (simp add: advance_def)
  next
    case number
    from number(3) have "contains ''. '' ?line" by (rule contains_take)
    then obtain b t where "find_sep ''. '' ?line = Some (b, t)"
      using split_once_contains by blast
    from loop_body_number[OF assms number this] digit_excl(5)[OF number(1,2)]
    show ?thesis by (simp add: advance_def)
  next
    case para
    from loop_body_paragraph[OF assms para] para(6) show ?thesis by (simp add: advance_def)
  qed
qed

lemma advance_pos: "0 < advance lines i"
  by (simp add: advance_def)

lemma advance_bound: "i < length lines \<Longrightarrow> i + advance lines i \<le> length lines"
proof -
  assume a: "i < length lines"
  have "length (takeWhile (\<lambda>l. \<not> startswith (strip l) fence) (drop (i + 1) lines))
          \<le> length (drop (i + 1) lines)"
    by (rule length_takeWhile_le)
  with a show ?thesis by (auto simp: advance_def)
qed

lemma loop_body_doc:
  "loop_body lines i doc =
     (case loop_body lines i [] of Inl e \<Rightarrow> Inl e | Inr (i', bs) \<Rightarrow> Inr (i', doc @ bs))"
  by (simp add: loop_body_def Let_def split: sum.splits prod.splits)

lemma loop_body_emitted:
  assumes "i < length lines"
  shows "loop_body lines i doc = Inr (i + advance lines i, doc @ emitted lines i)"
proof -
  from loop_body_advance[OF assms, of "[]"]
  obtain bs where bs: "loop_body lines i [] = Inr (i + advance lines i, bs)" by auto
  then have "emitted lines i = bs" by (simp add: emitted_def)
  with bs show ?thesis by (subst loop_body_doc) simp
qed

lemma visited_step:
  assumes "i < length lines"
  shows "visited lines i = i # visited lines (i + advance lines i)"
  using assms loop_body_emitted[OF assms, of "[]"] advance_pos[of lines i]
  by (subst visited.simps) simp

lemma visited_end: "\<not> i < length lines \<Longrightarrow> visited lines i = []"
  by (subst visited.simps) simp

lemma visited_range: "set (visited lines i) \<subseteq> {i..<length lines}"
proof (induction "length lines - i" arbitrary: i rule: less_induct)
  case less
  show ?case
  proof (cases "i < length lines")
    case False
    then show ?thesis by (simp add: visited_end)
  next
    case True
    let ?j = "i + advance lines i"
    have "length lines - ?j < length lines - i"
      using True advance_pos[of lines i] by arith
    then have "set (visited lines ?j) \<subseteq> {?j..<length lines}" by (rule less)
    then have "set (visited lines ?j) \<subseteq> {i..<length lines}" by auto
    with True show ?thesis by (simp add: visited_step)
  qed
qed

lemma visited_increasing: "sorted_wrt (<) (visited lines i)"
proof (induction "length lines - i" arbitrary: i rule: less_induct)
  case less
  show ?case
  proof (cases "i < length lines")
    case False
    then show ?thesis by (simp add: visited_end)
  next
    case True
    let ?j = "i + advance lines i"
    have lt: "length lines - ?j < length lines - i"
      using True advance_pos[of lines i] by arith
    have "\<forall>k \<in> set (visited lines ?j). i < k"
      using visited_range[of lines ?j] advance_pos[of lines i] by auto
    with less[OF lt] True show ?thesis by (simp add: visited_step)
  qed
qed

lemma convert_loop_eq:
  "convert_loop lines i doc = Some (Inr (doc @ concat (map (emitted lines) (visited lines i))))"
proof (induction "length lines - i" arbitrary: i doc rule: less_induct)
  case less
  show ?case
  proof (cases "i < length lines")
    case False
    then show ?thesis by (subst convert_loop.simps) (simp add: visited_end)
  next
    case True
    let ?j = "i + advance lines i"
    have lt: "length lines - ?j < length lines - i"
      using True advance_pos[of lines i] by arith
    have "convert_loop lines i doc = convert_loop lines ?j (doc @ emitted lines i)"
      using True by (subst convert_loop.simps) (simp add: loop_body_emitted)
    also have "\<dots> = Some (Inr ((doc @ emitted lines i)
                        @ concat (map (emitted lines) (visited lines ?j))))"
      by (rule less[OF lt])
    finally show ?thesis using True by (simp add: visited_step)
  qed
qed

section \<open>Code fences\<close>

text \<open>
  C1. The claim is that a closing fence line is consumed by the code-fence rule, so that
  processing resumes at the line after it. The inner loop stops with the cursor on the
  closing fence line and the cursor is not moved past it: the next iteration of the outer
  loop reads that line as the opening fence of a new block. On the lines
  \<open>```\<close>, \<open>a\<close>, \<open>```\<close>, \<open>b\<close> the first iteration ends at cursor 2 (the closing fence), the
  iteration at 2 collects \<open>b\<close> as code, and the document holds two code blocks.
\<close>

theorem closing_fence_reopens:
  "loop_body [fence, ''a'', fence, ''b''] 0 [] = Inr (2, [CodeBlock ''a''])
   \<and> loop_body [fence, ''a'', fence, ''b''] 2 [CodeBlock ''a'']
       = Inr (4, [CodeBlock ''a'', CodeBlock ''b''])
   \<and> convert (fence @ [CHR 0x0A] @ ''a'' @ [CHR 0x0A] @ fence @ [CHR 0x0A] @ ''b'')
       = Some (Inr [CodeBlock ''a'', CodeBlock ''b''])"
  by code_simp

text \<open>
  C4. An iteration that starts on a fence line moves the cursor over the raw lines up to the
  next fence line (or the end of the input), and appends one code block whose text is
  these lines concatenated with nothing between them; when there is no such line it appends
  nothing. The body \<open>a\<close>, \<open>b\<close> gives the one block \<open>ab\<close>, and an empty fence gives no
  block.
\<close>

theorem code_fence_block:
  assumes "i < length lines" and "startswith (strip (lines ! i)) fence"
  shows "loop_body lines i doc =
           Inr (i + 1 + length (takeWhile (\<lambda>l. \<not> startswith (strip l) fence) (drop (i + 1) lines)),
                if takeWhile (\<lambda>l. \<not> startswith (strip l) fence) (drop (i + 1) lines) = []
                then doc
                else doc @ [CodeBlock (concat (takeWhile (\<lambda>l. \<not> startswith (strip l) fence)
                                                 (drop (i + 1) lines)))])
         \<and> convert (fence @ [CHR 0x0A] @ ''a'' @ [CHR 0x0A] @ ''b'' @ [CHR 0x0A] @ fence)
             = Some (Inr [CodeBlock ''ab''])
         \<and> convert (fence @ [CHR 0x0A] @ fence) = Some (Inr [])"
proof -
  have ab: "convert (fence @ [CHR 0x0A] @ ''a'' @ [CHR 0x0A] @ ''b'' @ [CHR 0x0A] @ fence)
              = Some (Inr [CodeBlock ''ab''])"
    by code_simp
  have none: "convert (fence @ [CHR 0x0A] @ fence) = Some (Inr [])"
    by code_simp
  from loop_body_fence[OF assms] ab none show ?thesis by blast
qed

theorem code_fence_block_witness:
  "0 < length [fence, ''  a '', ''b'', fence] \<and> startswith (strip ([fence, ''  a '', ''b'', fence] ! 0)) fence
   \<and> loop_body [fence, ''  a '', ''b'', fence] 0 [] = Inr (3, [CodeBlock ''  a b''])"
proof -
  have h1: "0 < length [fence, ''  a '', ''b'', fence]" by simp
  have h2: "startswith (strip ([fence, ''  a '', ''b'', fence] ! 0)) fence" by code_simp
  have tw: "takeWhile (\<lambda>l. \<not> startswith (strip l) fence) (drop (0 + 1) [fence, ''  a '', ''b'', fence])
              = [''  a '', ''b'']"
    by code_simp
  from code_fence_block[OF h1 h2, of "[]"] h1 h2 show ?thesis
    unfolding tw by simp
qed

section \<open>Headings\<close>

lemma hashes_2: "replicate 2 CHR ''#'' @ '' '' = ''## ''" by (simp add: numeral_2_eq_2)
lemma hashes_3: "replicate 3 CHR ''#'' @ '' '' = ''### ''" by (simp add: numeral_3_eq_3)
lemma hashes_4: "replicate 4 CHR ''#'' @ '' '' = ''#### ''" by (simp add: eval_nat_numeral)

lemma heading_prefixes_disjoint:
  "\<not> (startswith s ''# '' \<and> startswith s ''## '')"
  "\<not> (startswith s ''# '' \<and> startswith s ''### '')"
  "\<not> (startswith s ''# '' \<and> startswith s ''#### '')"
  "\<not> (startswith s ''## '' \<and> startswith s ''### '')"
  "\<not> (startswith s ''## '' \<and> startswith s ''#### '')"
  "\<not> (startswith s ''### '' \<and> startswith s ''#### '')"
  by (auto simp: startswith_Cons split: list.splits)

lemma emitted_heading_iff:
  assumes "i < length lines"
  shows "Heading N t \<in> set (emitted lines i) \<longleftrightarrow>
           (N = 1 \<and> startswith (strip (lines ! i)) ''# '' \<and> t = drop 2 (strip (lines ! i)))
         \<or> (N = 2 \<and> startswith (strip (lines ! i)) ''## '' \<and> t = drop 3 (strip (lines ! i)))
         \<or> (N = 3 \<and> startswith (strip (lines ! i)) ''### '' \<and> t = drop 4 (strip (lines ! i)))
         \<or> (N = 4 \<and> startswith (strip (lines ! i)) ''#### '' \<and> t = drop 5 (strip (lines ! i)))"
proof -
  let ?line = "strip (lines ! i)"
  consider (empty) "?line = []"
    | (h1) "startswith ?line ''# ''"
    | (h2) "startswith ?line ''## ''"
    | (h3) "startswith ?line ''### ''"
    | (h4) "startswith ?line ''#### ''"
    | (fence) "startswith ?line fence"
    | (bullet) "startswith ?line ''- '' \<or> startswith ?line ''* ''"
    | (number) "?line \<noteq> []" "isdigit (hd ?line)" "contains ''. '' (take 5 ?line)"
    | (para) "?line \<noteq> []" "\<not> startswith ?line ''# ''" "\<not> startswith ?line ''## ''"
        "\<not> startswith ?line ''### ''" "\<not> startswith ?line ''#### ''"
        "\<not> startswith ?line fence" "\<not> startswith ?line ''- ''" "\<not> startswith ?line ''* ''"
        "\<not> (isdigit (hd ?line) \<and> contains ''. '' (take 5 ?line))"
    by blast
  then show ?thesis
  proof cases
    case empty
    then have "emitted lines i = []"
      using assms by (simp add: emitted_def loop_body_empty)
    with empty show ?thesis by (simp add: startswith_def)
  next
    case h1
    then have "emitted lines i = [Heading 1 (drop 2 ?line)]"
      using assms by (simp add: emitted_def loop_body_heading1)
    with h1 heading_prefixes_disjoint[of ?line] show ?thesis by auto
  next
    case h2
    then have "emitted lines i = [Heading 2 (drop 3 ?line)]"
      using assms by (simp add: emitted_def loop_body_heading2)
    with h2 heading_prefixes_disjoint[of ?line] show ?thesis by auto
  next
    case h3
    then have "emitted lines i = [Heading 3 (drop 4 ?line)]"
      using assms by (simp add: emitted_def loop_body_heading3)
    with h3 heading_prefixes_disjoint[of ?line] show ?thesis by auto
  next
    case h4
    then have "emitted lines i = [Heading 4 (drop 5 ?line)]"
      using assms by (simp add: emitted_def loop_body_heading4)
    with h4 heading_prefixes_disjoint[of ?line] show ?thesis by auto
  next
    case fence
    then have "Heading N t \<notin> set (emitted lines i)"
      using assms by (simp add: emitted_def loop_body_fence)
    with fence_excl[OF fence] show ?thesis by auto
  next
    case bullet
    from loop_body_bullet[OF assms bullet, of "[]"]
    have "Heading N t \<notin> set (emitted lines i)" by (simp add: emitted_def)
    moreover from bullet have "\<not> startswith ?line ''# ''" "\<not> startswith ?line ''## ''"
      "\<not> startswith ?line ''### ''" "\<not> startswith ?line ''#### ''"
      by (auto simp: startswith_Cons split: list.splits)
    ultimately show ?thesis by auto
  next
    case number
    from number(3) have "contains ''. '' ?line" by (rule contains_take)
    then obtain b u where "find_sep ''. '' ?line = Some (b, u)"
      using split_once_contains by blast
    from loop_body_number[OF assms number this, of "[]"]
    have "Heading N t \<notin> set (emitted lines i)" by (simp add: emitted_def)
    with digit_excl[OF number(1,2)] show ?thesis by auto
  next
    case para
    from loop_body_paragraph[OF assms para, of "[]"]
    have "Heading N t \<notin> set (emitted lines i)" by (simp add: emitted_def)
    with para show ?thesis by auto
  qed
qed

text \<open>
  C2. For a level \<open>N\<close> from 1 to 4, an iteration appends a heading of level \<open>N\<close> if and only
  if the trimmed line starts with \<open>N\<close> characters \<open>#\<close> and a space; the heading is then the
  only block appended, its text is the trimmed line without these \<open>N + 1\<close> characters, and
  a line that starts with \<open>####\<close> and a space gives no heading of level 1, 2 or 3.
\<close>

theorem heading_level_iff:
  assumes "i < length lines" and "1 \<le> N" and "N \<le> 4"
  shows "((\<exists>i' bs t. loop_body lines i doc = Inr (i', doc @ bs) \<and> Heading N t \<in> set bs)
            \<longleftrightarrow> startswith (strip (lines ! i)) (replicate N CHR ''#'' @ '' ''))
       \<and> (startswith (strip (lines ! i)) (replicate N CHR ''#'' @ '' '') \<longrightarrow>
            loop_body lines i doc
              = Inr (i + 1, doc @ [Heading N (drop (N + 1) (strip (lines ! i)))]))
       \<and> (startswith (strip (lines ! i)) ''#### '' \<longrightarrow>
            (\<forall>i' bs t. loop_body lines i doc = Inr (i', doc @ bs) \<longrightarrow>
               Heading 1 t \<notin> set bs \<and> Heading 2 t \<notin> set bs \<and> Heading 3 t \<notin> set bs))"
proof -
  let ?line = "strip (lines ! i)"
  have em: "\<And>i' bs. loop_body lines i doc = Inr (i', doc @ bs) \<Longrightarrow> bs = emitted lines i"
    using loop_body_emitted[OF assms(1), of doc] by simp
  have lb: "loop_body lines i doc = Inr (i + advance lines i, doc @ emitted lines i)"
    by (rule loop_body_emitted[OF assms(1)])
  have levels: "N = 1 \<or> N = 2 \<or> N = 3 \<or> N = 4"
    using assms(2,3) by arith
  then consider "N = 1" | "N = 2" | "N = 3" | "N = 4" by blast
  then have one: "(\<exists>i' bs t. loop_body lines i doc = Inr (i', doc @ bs) \<and> Heading N t \<in> set bs)
            \<longleftrightarrow> startswith ?line (replicate N CHR ''#'' @ '' '')"
  proof cases
    case 1
    show ?thesis
    proof
      assume "\<exists>i' bs t. loop_body lines i doc = Inr (i', doc @ bs) \<and> Heading N t \<in> set bs"
      then obtain t where "Heading N t \<in> set (emitted lines i)" using em by blast
      with 1 show "startswith ?line (replicate N CHR ''#'' @ '' '')"
        by (simp add: emitted_heading_iff[OF assms(1)])
    next
      assume "startswith ?line (replicate N CHR ''#'' @ '' '')"
      with 1 have "Heading N (drop 2 ?line) \<in> set (emitted lines i)"
        by (simp add: emitted_heading_iff[OF assms(1)])
      with lb show "\<exists>i' bs t. loop_body lines i doc = Inr (i', doc @ bs) \<and> Heading N t \<in> set bs"
        by blast
    qed
  next
    case 2
    show ?thesis
    proof
      assume "\<exists>i' bs t. loop_body lines i doc = Inr (i', doc @ bs) \<and> Heading N t \<in> set bs"
      then obtain t where "Heading N t \<in> set (emitted lines i)" using em by blast
      with 2 show "startswith ?line (replicate N CHR ''#'' @ '' '')"
        by (simp add: emitted_heading_iff[OF assms(1)] hashes_2)
    next
      assume "startswith ?line (replicate N CHR ''#'' @ '' '')"
      with 2 have "Heading N (drop 3 ?line) \<in> set (emitted lines i)"
        by (simp add: emitted_heading_iff[OF assms(1)] hashes_2)
      with lb show "\<exists>i' bs t. loop_body lines i doc = Inr (i', doc @ bs) \<and> Heading N t \<in> set bs"
        by blast
    qed
  next
    case 3
    show ?thesis
    proof
      assume "\<exists>i' bs t. loop_body lines i doc = Inr (i', doc @ bs) \<and> Heading N t \<in> set bs"
      then obtain t where "Heading N t \<in> set (emitted lines i)" using em by blast
      with 3 show "startswith ?line (replicate N CHR ''#'' @ '' '')"
        by (simp add: emitted_heading_iff[OF assms(1)] hashes_3)
    next
      assume "startswith ?line (replicate N CHR ''#'' @ '' '')"
      with 3 have "Heading N (drop 4 ?line) \<in> set (emitted lines i)"
        by (simp add: emitted_heading_iff[OF assms(1)] hashes_3)
      with lb show "\<exists>i' bs t. loop_body lines i doc = Inr (i', doc @ bs) \<and> Heading N t \<in> set bs"
        by blast
    qed
  next
    case 4
    show ?thesis
    proof
      assume "\<exists>i' bs t. loop_body lines i doc = Inr (i', doc @ bs) \<and> Heading N t \<in> set bs"
      then obtain t where "Heading N t \<in> set (emitted lines i)" using em by blast
      with 4 show "startswith ?line (replicate N CHR ''#'' @ '' '')"
        by (simp add: emitted_heading_iff[OF assms(1)] hashes_4)
    next
      assume "startswith ?line (replicate N CHR ''#'' @ '' '')"
      with 4 have "Heading N (drop 5 ?line) \<in> set (emitted lines i)"
        by (simp add: emitted_heading_iff[OF assms(1)] hashes_4)
      with lb show "\<exists>i' bs t. loop_body lines i doc = Inr (i', doc @ bs) \<and> Heading N t \<in> set bs"
        by blast
    qed
  qed
  have two: "startswith ?line (replicate N CHR ''#'' @ '' '') \<longrightarrow>
            loop_body lines i doc = Inr (i + 1, doc @ [Heading N (drop (N + 1) ?line)])"
  proof
    assume sw: "startswith ?line (replicate N CHR ''#'' @ '' '')"
    from levels show "loop_body lines i doc = Inr (i + 1, doc @ [Heading N (drop (N + 1) ?line)])"
    proof (elim disjE)
      assume n: "N = 1"
      with sw have "startswith ?line ''# ''" by simp
      from loop_body_heading1[OF assms(1) this] n show ?thesis by (simp add: numeral_2_eq_2)
    next
      assume n: "N = 2"
      with sw have "startswith ?line ''## ''" by (simp add: hashes_2)
      from loop_body_heading2[OF assms(1) this] n show ?thesis by simp
    next
      assume n: "N = 3"
      with sw have "startswith ?line ''### ''" by (simp add: hashes_3)
      from loop_body_heading3[OF assms(1) this] n show ?thesis by simp
    next
      assume n: "N = 4"
      with sw have "startswith ?line ''#### ''" by (simp add: hashes_4)
      from loop_body_heading4[OF assms(1) this] n show ?thesis by simp
    qed
  qed
  have three: "startswith ?line ''#### '' \<longrightarrow>
            (\<forall>i' bs t. loop_body lines i doc = Inr (i', doc @ bs) \<longrightarrow>
               Heading 1 t \<notin> set bs \<and> Heading 2 t \<notin> set bs \<and> Heading 3 t \<notin> set bs)"
  proof (intro impI allI)
    fix i' bs t
    assume h4: "startswith ?line ''#### ''" and "loop_body lines i doc = Inr (i', doc @ bs)"
    then have "bs = [Heading 4 (drop 5 ?line)]"
      using assms(1) by (simp add: loop_body_heading4)
    then show "Heading 1 t \<notin> set bs \<and> Heading 2 t \<notin> set bs \<and> Heading 3 t \<notin> set bs"
      by simp
  qed
  from one two three show ?thesis by blast
qed

theorem heading_level_iff_witness:
  "0 < length [''  ## Title  ''] \<and> (1::nat) \<le> 2 \<and> (2::nat) \<le> 4
   \<and> startswith (strip ([''  ## Title  ''] ! 0)) (replicate 2 CHR ''#'' @ '' '')
   \<and> loop_body [''  ## Title  ''] 0 []
       = Inr (0 + 1, [] @ [Heading 2 (drop (2 + 1) (strip ([''  ## Title  ''] ! 0)))])
   \<and> drop (2 + 1) (strip ([''  ## Title  ''] ! 0)) = ''Title''"
proof -
  have h1: "0 < length [''  ## Title  '']" by simp
  have h2: "(1::nat) \<le> 2" and h3: "(2::nat) \<le> 4" by simp_all
  have sw: "startswith (strip ([''  ## Title  ''] ! 0)) (replicate 2 CHR ''#'' @ '' '')"
    by code_simp
  have dr: "drop (2 + 1) (strip ([''  ## Title  ''] ! 0)) = ''Title''"
    by code_simp
  from heading_level_iff[OF h1 h2 h3, of "[]"] sw
  have "loop_body [''  ## Title  ''] 0 []
       = Inr (0 + 1, [] @ [Heading 2 (drop (2 + 1) (strip ([''  ## Title  ''] ! 0)))])"
    by blast
  with h1 h2 h3 sw dr show ?thesis by blast
qed

section \<open>Paragraphs\<close>

lemma add_runs_text: "map run_text (add_runs parts) = parts"
  by (rule nth_equalityI) (simp_all add: add_runs_def nth_enumerate_eq)

lemma add_runs_length: "length (add_runs parts) = length parts"
  by (simp add: add_runs_def)

lemma add_runs_font:
  "j < length parts \<Longrightarrow>
   font_name (add_runs parts ! j) = (if even j then None else Some ''Courier New'')"
  by (simp add: add_runs_def nth_enumerate_eq even_iff_mod_2_eq_zero)

text \<open>
  C3. A trimmed line that is not empty and that no heading, fence, bullet or numbered-list
  test accepts gives exactly one paragraph, whatever the number of backticks in it: the
  iteration does not raise, the texts of the runs are the pieces of the line split at the
  backticks, in order, the runs at even positions have no font set and those at odd positions
  are in \<open>Courier New\<close>, and the texts of the runs concatenated are the line without its
  backticks.
\<close>

theorem paragraph_runs:
  assumes "i < length lines"
    and "strip (lines ! i) \<noteq> []"
    and "\<not> startswith (strip (lines ! i)) ''# ''"
    and "\<not> startswith (strip (lines ! i)) ''## ''"
    and "\<not> startswith (strip (lines ! i)) ''### ''"
    and "\<not> startswith (strip (lines ! i)) ''#### ''"
    and "\<not> startswith (strip (lines ! i)) fence"
    and "\<not> startswith (strip (lines ! i)) ''- ''"
    and "\<not> startswith (strip (lines ! i)) ''* ''"
    and "\<not> (isdigit (hd (strip (lines ! i))) \<and> contains ''. '' (take 5 (strip (lines ! i))))"
  shows "\<exists>rs. loop_body lines i doc = Inr (i + 1, doc @ [Paragraph rs])
           \<and> map run_text rs = split_chr (CHR 0x60) (strip (lines ! i))
           \<and> (\<forall>j < length rs. font_name (rs ! j) = (if even j then None else Some ''Courier New''))
           \<and> concat (map run_text rs) = filter (\<lambda>c. c \<noteq> CHR 0x60) (strip (lines ! i))"
proof -
  let ?rs = "add_runs (split_chr (CHR 0x60) (strip (lines ! i)))"
  have "loop_body lines i doc = Inr (i + 1, doc @ [Paragraph ?rs])"
    by (rule loop_body_paragraph[OF assms])
  moreover have "map run_text ?rs = split_chr (CHR 0x60) (strip (lines ! i))"
    by (rule add_runs_text)
  moreover have "\<forall>j < length ?rs. font_name (?rs ! j) = (if even j then None else Some ''Courier New'')"
    by (simp add: add_runs_length add_runs_font)
  moreover have "concat (map run_text ?rs) = filter (\<lambda>c. c \<noteq> CHR 0x60) (strip (lines ! i))"
    by (simp add: add_runs_text concat_split_chr)
  ultimately show ?thesis by blast
qed

theorem paragraph_runs_witness:
  "strip ([''text '' @ [CHR 0x60] @ ''code''] ! 0) \<noteq> []
   \<and> (\<exists>rs. loop_body [''text '' @ [CHR 0x60] @ ''code''] 0 [] = Inr (0 + 1, [] @ [Paragraph rs])
         \<and> map run_text rs = [''text '', ''code'']
         \<and> concat (map run_text rs) = ''text code'')"
proof -
  let ?L = "[''text '' @ [CHR 0x60] @ ''code'']"
  have h1: "0 < length ?L" by simp
  have h2: "strip (?L ! 0) \<noteq> []" by code_simp
  have h3: "\<not> startswith (strip (?L ! 0)) ''# ''" by code_simp
  have h4: "\<not> startswith (strip (?L ! 0)) ''## ''" by code_simp
  have h5: "\<not> startswith (strip (?L ! 0)) ''### ''" by code_simp
  have h6: "\<not> startswith (strip (?L ! 0)) ''#### ''" by code_simp
  have h7: "\<not> startswith (strip (?L ! 0)) fence" by code_simp
  have h8: "\<not> startswith (strip (?L ! 0)) ''- ''" by code_simp
  have h9: "\<not> startswith (strip (?L ! 0)) ''* ''" by code_simp
  have h10: "\<not> (isdigit (hd (strip (?L ! 0))) \<and> contains ''. '' (take 5 (strip (?L ! 0))))"
    by code_simp
  have sp: "split_chr (CHR 0x60) (strip (?L ! 0)) = [''text '', ''code'']" by code_simp
  have fl: "filter (\<lambda>c. c \<noteq> CHR 0x60) (strip (?L ! 0)) = ''text code''" by code_simp
  from paragraph_runs[OF h1 h2 h3 h4 h5 h6 h7 h8 h9 h10, of "[]"]
  obtain rs where "loop_body ?L 0 [] = Inr (0 + 1, [] @ [Paragraph rs])"
    and "map run_text rs = [''text '', ''code'']"
    and "concat (map run_text rs) = ''text code''"
    unfolding sp fl by (elim exE conjE)
  then have "\<exists>rs. loop_body ?L 0 [] = Inr (0 + 1, [] @ [Paragraph rs])
         \<and> map run_text rs = [''text '', ''code'']
         \<and> concat (map run_text rs) = ''text code''"
    by (intro exI conjI)
  with h2 show ?thesis by (rule conjI)
qed

section \<open>Numbered lists\<close>

text \<open>
  C6, as claimed: the line \<open>3.14 is pi\<close> would be taken for a numbered-list item. It is
  not: its period is followed by \<open>1\<close>, so the first five characters do not contain a
  period and a space, and the line becomes a paragraph.
\<close>

theorem numbered_heuristic_counterexample:
  "loop_body [''3.14 is pi''] 0 []
     = Inr (1, [Paragraph [\<lparr>run_text = ''3.14 is pi'', font_name = None\<rparr>]])"
  by code_simp

text \<open>
  C6, amended. The numbered-list test accepts an ordinary sentence that starts with a number,
  a period and a space within its first five characters: \<open>42. That is the answer\<close> becomes
  the numbered-list item \<open>That is the answer\<close>. The line \<open>3.14 is pi\<close> has no period
  followed by a space in its first five characters and becomes a paragraph.
\<close>

theorem numbered_heuristic_needs_space:
  "convert ''42. That is the answer'' = Some (Inr [ListNumber ''That is the answer''])
   \<and> contains ''. '' (take 5 ''42. That is the answer'')
   \<and> \<not> contains ''. '' (take 5 ''3.14 is pi'')
   \<and> convert ''3.14 is pi''
       = Some (Inr [Paragraph [\<lparr>run_text = ''3.14 is pi'', font_name = None\<rparr>]])"
  by code_simp

section \<open>List items\<close>

text \<open>
  C5. A trimmed line that starts with \<open>- \<close> or \<open>* \<close> gives exactly one bulleted item, whose
  text is the line without these two characters. A trimmed line whose first character is a
  digit and whose first five characters contain a period and a space gives exactly one
  numbered item, whose text is what follows the first period and space of the line. So
  \<open>- item\<close> gives the bulleted item \<open>item\<close>, and \<open>1. item\<close> and \<open>10. item\<close> each give the
  numbered item \<open>item\<close>.
\<close>

theorem list_items:
  assumes "i < length lines"
  shows "(startswith (strip (lines ! i)) ''- '' \<or> startswith (strip (lines ! i)) ''* '' \<longrightarrow>
            loop_body lines i doc = Inr (i + 1, doc @ [ListBullet (drop 2 (strip (lines ! i)))]))
       \<and> (strip (lines ! i) \<noteq> [] \<and> isdigit (hd (strip (lines ! i)))
            \<and> contains ''. '' (take 5 (strip (lines ! i))) \<longrightarrow>
            (\<exists>b t. loop_body lines i doc = Inr (i + 1, doc @ [ListNumber t])
               \<and> strip (lines ! i) = b @ ''. '' @ t
               \<and> (\<forall>b' t'. strip (lines ! i) = b' @ ''. '' @ t' \<longrightarrow> length b \<le> length b')))
       \<and> convert ''- item'' = Some (Inr [ListBullet ''item''])
       \<and> convert ''1. item'' = Some (Inr [ListNumber ''item''])
       \<and> convert ''10. item'' = Some (Inr [ListNumber ''item''])"
proof -
  let ?line = "strip (lines ! i)"
  have bullet: "startswith ?line ''- '' \<or> startswith ?line ''* '' \<longrightarrow>
            loop_body lines i doc = Inr (i + 1, doc @ [ListBullet (drop 2 ?line)])"
    using loop_body_bullet[OF assms] by blast
  have number: "?line \<noteq> [] \<and> isdigit (hd ?line) \<and> contains ''. '' (take 5 ?line) \<longrightarrow>
            (\<exists>b t. loop_body lines i doc = Inr (i + 1, doc @ [ListNumber t])
               \<and> ?line = b @ ''. '' @ t
               \<and> (\<forall>b' t'. ?line = b' @ ''. '' @ t' \<longrightarrow> length b \<le> length b'))"
  proof
    assume h: "?line \<noteq> [] \<and> isdigit (hd ?line) \<and> contains ''. '' (take 5 ?line)"
    then have "contains ''. '' ?line" using contains_take by blast
    then obtain b t where f: "find_sep ''. '' ?line = Some (b, t)"
      using split_once_contains by blast
    from h f have "loop_body lines i doc = Inr (i + 1, doc @ [ListNumber t])"
      using loop_body_number[OF assms] by blast
    moreover from f have "?line = b @ ''. '' @ t" by (rule find_sep_Some)
    moreover from f have "\<forall>b' t'. ?line = b' @ ''. '' @ t' \<longrightarrow> length b \<le> length b'"
      using find_sep_first by blast
    ultimately show "\<exists>b t. loop_body lines i doc = Inr (i + 1, doc @ [ListNumber t])
               \<and> ?line = b @ ''. '' @ t
               \<and> (\<forall>b' t'. ?line = b' @ ''. '' @ t' \<longrightarrow> length b \<le> length b')"
      by blast
  qed
  have e1: "convert ''- item'' = Some (Inr [ListBullet ''item''])" by code_simp
  have e2: "convert ''1. item'' = Some (Inr [ListNumber ''item''])" by code_simp
  have e3: "convert ''10. item'' = Some (Inr [ListNumber ''item''])" by code_simp
  from bullet number e1 e2 e3 show ?thesis by blast
qed

theorem list_items_witness:
  "loop_body [''  * item''] 0 [] = Inr (0 + 1, [] @ [ListBullet (drop 2 (strip ([''  * item''] ! 0)))])
   \<and> drop 2 (strip ([''  * item''] ! 0)) = ''item''
   \<and> (\<exists>b t. loop_body [''10. item''] 0 [] = Inr (0 + 1, [] @ [ListNumber t])
         \<and> strip ([''10. item''] ! 0) = b @ ''. '' @ t)"
proof -
  let ?B = "[''  * item'']" and ?N = "[''10. item'']"
  have hb: "0 < length ?B" and hn: "0 < length ?N" by simp_all
  have sb: "startswith (strip (?B ! 0)) ''- '' \<or> startswith (strip (?B ! 0)) ''* ''"
    by code_simp
  have sn: "strip (?N ! 0) \<noteq> [] \<and> isdigit (hd (strip (?N ! 0)))
            \<and> contains ''. '' (take 5 (strip (?N ! 0)))"
    by code_simp
  have dr: "drop 2 (strip (?B ! 0)) = ''item''" by code_simp
  from list_items[OF hb, of "[]"] sb
  have b: "loop_body ?B 0 [] = Inr (0 + 1, [] @ [ListBullet (drop 2 (strip (?B ! 0)))])"
    by blast
  from list_items[OF hn, of "[]"] sn
  have n: "\<exists>b t. loop_body ?N 0 [] = Inr (0 + 1, [] @ [ListNumber t])
         \<and> strip (?N ! 0) = b @ ''. '' @ t"
    by blast
  from b dr n show ?thesis by blast
qed

section \<open>Missing input, missing packages\<close>

text \<open>
  C7. When the input file does not exist, the script prints that it was not found and
  exits with status 1; the files are as they were, so nothing was converted and no output
  file was written. When the imports fail, the script prints the two lines of its import
  guard and exits with status 1, whatever the files are, and the files are as they were.
\<close>

theorem missing_input_or_packages:
  "(files w md_file = None \<longrightarrow>
      (\<exists>w'. script True w = Some (w', Exit 1)
         \<and> files w' = files w
         \<and> stdout w' = stdout w @ [''Error: BONZAI_COMPREHENSIVE_SUMMARY.md not found'']))
   \<and> (\<exists>w'. script False w = Some (w', Exit 1)
         \<and> files w' = files w
         \<and> stdout w' = stdout w @ [''Error: Required packages not installed.'',
                                     ''Please install: pip install python-docx markdown''])"
  by (simp add: script_def md_file_def)

theorem missing_input_or_packages_witness:
  "files \<lparr>files = Map.empty, stdout = []\<rparr> md_file = None
   \<and> (\<exists>w'. script True \<lparr>files = Map.empty, stdout = []\<rparr> = Some (w', Exit 1)
         \<and> files w' = files \<lparr>files = Map.empty, stdout = []\<rparr>
         \<and> stdout w' = stdout \<lparr>files = Map.empty, stdout = []\<rparr>
                          @ [''Error: BONZAI_COMPREHENSIVE_SUMMARY.md not found''])"
proof -
  have h: "files \<lparr>files = Map.empty, stdout = []\<rparr> md_file = None" by simp
  from missing_input_or_packages[of "\<lparr>files = Map.empty, stdout = []\<rparr>"] h
  show ?thesis by blast
qed

section \<open>Order of the output\<close>

text \<open>
  C8. The document that the loop returns is the document it started with, followed by the
  blocks of each iteration, in the order of the iterations, and the lines at which the
  iterations start are strictly increasing: a block that comes from an earlier line stands
  before a block that comes from a later line. Every iteration only appends to the
  document.
\<close>

theorem output_in_input_order:
  "convert_loop lines i doc = Some (Inr (doc @ concat (map (emitted lines) (visited lines i))))
   \<and> sorted_wrt (<) (visited lines i)
   \<and> (k < length lines \<longrightarrow>
        (\<exists>k'. loop_body lines k d = Inr (k', d @ emitted lines k)
           \<and> k < k' \<and> visited lines k = k # visited lines k'))"
proof -
  have "k < length lines \<longrightarrow>
        (\<exists>k'. loop_body lines k d = Inr (k', d @ emitted lines k)
           \<and> k < k' \<and> visited lines k = k # visited lines k')"
  proof
    assume k: "k < length lines"
    have "loop_body lines k d = Inr (k + advance lines k, d @ emitted lines k)"
      by (rule loop_body_emitted[OF k])
    moreover have "k < k + advance lines k" using advance_pos[of lines k] by simp
    moreover have "visited lines k = k # visited lines (k + advance lines k)"
      by (rule visited_step[OF k])
    ultimately show "\<exists>k'. loop_body lines k d = Inr (k', d @ emitted lines k)
           \<and> k < k' \<and> visited lines k = k # visited lines k'"
      by blast
  qed
  with convert_loop_eq[of lines i doc] visited_increasing[of lines i] show ?thesis by blast
qed

theorem output_in_input_order_witness:
  "convert_loop [''# T'', '''', ''- a'', fence, ''x'', fence, ''b''] 0 []
     = Some (Inr ([] @ concat (map (emitted [''# T'', '''', ''- a'', fence, ''x'', fence, ''b''])
                                   (visited [''# T'', '''', ''- a'', fence, ''x'', fence, ''b''] 0))))
   \<and> visited [''# T'', '''', ''- a'', fence, ''x'', fence, ''b''] 0 = [0, 1, 2, 3, 5]
   \<and> map (emitted [''# T'', '''', ''- a'', fence, ''x'', fence, ''b'']) [0, 1, 2, 3, 5]
       = [[Heading 1 ''T''], [], [ListBullet ''a''], [CodeBlock ''x''], [CodeBlock ''b'']]
   \<and> (\<exists>k'. loop_body [''# T'', '''', ''- a'', fence, ''x'', fence, ''b''] 3 []
              = Inr (k', [] @ emitted [''# T'', '''', ''- a'', fence, ''x'', fence, ''b''] 3)
         \<and> 3 < k')"
proof -
  let ?L = "[''# T'', '''', ''- a'', fence, ''x'', fence, ''b'']"
  have h: "3 < length ?L" by simp
  have v: "visited ?L 0 = [0, 1, 2, 3, 5]" by code_simp
  have e: "map (emitted ?L) [0, 1, 2, 3, 5]
       = [[Heading 1 ''T''], [], [ListBullet ''a''], [CodeBlock ''x''], [CodeBlock ''b'']]"
    by code_simp
  from output_in_input_order[of ?L 0 "[]" 3 "[]"] h
  have "convert_loop ?L 0 [] = Some (Inr ([] @ concat (map (emitted ?L) (visited ?L 0))))"
    and "\<exists>k'. loop_body ?L 3 [] = Inr (k', [] @ emitted ?L 3) \<and> 3 < k'"
    by blast+
  with v e show ?thesis by blast
qed

section \<open>The cursor\<close>

text \<open>
  C9. Every iteration of the outer loop moves the cursor forward: by 1 on an ordinary
  line, and on a fence line by 1 plus the number of lines collected as code; the new cursor
  is at most the number of lines. The inner loop never moves the cursor back. The outer
  loop ends on every list of lines, from every cursor.
\<close>

theorem cursor_advances_and_loop_ends:
  "(i < length lines \<longrightarrow>
      (\<exists>i' doc'. loop_body lines i doc = Inr (i', doc')
         \<and> i' = i + (if startswith (strip (lines ! i)) fence
                      then 1 + length (takeWhile (\<lambda>l. \<not> startswith (strip l) fence)
                                         (drop (i + 1) lines))
                      else 1)
         \<and> i < i' \<and> i' \<le> length lines))
   \<and> (\<exists>j code_lines'. collect_code lines i code_lines = Inr (j, code_lines') \<and> i \<le> j)
   \<and> (\<exists>out. convert_loop lines i doc = Some out)"
proof -
  have body: "i < length lines \<longrightarrow>
      (\<exists>i' doc'. loop_body lines i doc = Inr (i', doc')
         \<and> i' = i + (if startswith (strip (lines ! i)) fence
                      then 1 + length (takeWhile (\<lambda>l. \<not> startswith (strip l) fence)
                                         (drop (i + 1) lines))
                      else 1)
         \<and> i < i' \<and> i' \<le> length lines)"
  proof
    assume i: "i < length lines"
    from loop_body_emitted[OF i, of doc] advance_pos[of lines i] advance_bound[OF i]
    have "loop_body lines i doc = Inr (i + advance lines i, doc @ emitted lines i)
          \<and> i < i + advance lines i \<and> i + advance lines i \<le> length lines"
      by simp
    then show "\<exists>i' doc'. loop_body lines i doc = Inr (i', doc')
         \<and> i' = i + (if startswith (strip (lines ! i)) fence
                      then 1 + length (takeWhile (\<lambda>l. \<not> startswith (strip l) fence)
                                         (drop (i + 1) lines))
                      else 1)
         \<and> i < i' \<and> i' \<le> length lines"
      unfolding advance_def by blast
  qed
  have inner: "\<exists>j code_lines'. collect_code lines i code_lines = Inr (j, code_lines') \<and> i \<le> j"
    by (simp add: collect_code_eq)
  have outer: "\<exists>out. convert_loop lines i doc = Some out"
    by (simp add: convert_loop_eq)
  from body inner outer show ?thesis by blast
qed

theorem cursor_advances_and_loop_ends_witness:
  "(\<exists>i' doc'. loop_body [fence, ''a'', ''b'', fence, ''c''] 0 [] = Inr (i', doc')
       \<and> i' = 0 + (if startswith (strip ([fence, ''a'', ''b'', fence, ''c''] ! 0)) fence
                    then 1 + length (takeWhile (\<lambda>l. \<not> startswith (strip l) fence)
                                       (drop (0 + 1) [fence, ''a'', ''b'', fence, ''c'']))
                    else 1)
       \<and> 0 < i' \<and> i' \<le> length [fence, ''a'', ''b'', fence, ''c''])
   \<and> 0 + (if startswith (strip ([fence, ''a'', ''b'', fence, ''c''] ! 0)) fence
           then 1 + length (takeWhile (\<lambda>l. \<not> startswith (strip l) fence)
                              (drop (0 + 1) [fence, ''a'', ''b'', fence, ''c'']))
           else 1) = 3"
proof -
  let ?L = "[fence, ''a'', ''b'', fence, ''c'']"
  have h: "0 < length ?L" by simp
  have a: "0 + (if startswith (strip (?L ! 0)) fence
           then 1 + length (takeWhile (\<lambda>l. \<not> startswith (strip l) fence) (drop (0 + 1) ?L))
           else 1) = 3"
    by code_simp
  from cursor_advances_and_loop_ends[of 0 ?L "[]" "[]"] h
  have "\<exists>i' doc'. loop_body ?L 0 [] = Inr (i', doc')
       \<and> i' = 0 + (if startswith (strip (?L ! 0)) fence
                    then 1 + length (takeWhile (\<lambda>l. \<not> startswith (strip l) fence) (drop (0 + 1) ?L))
                    else 1)
       \<and> 0 < i' \<and> i' \<le> length ?L"
    by blast
  with a show ?thesis by blast
qed

section \<open>No index out of range\<close>

text \<open>
  C10. No iteration raises. An empty trimmed line is skipped before the first character is
  read, and on a line that is not empty the index 0 is in range. When the first five
  characters contain a period and a space, the split at the first period and space has two
  pieces, so the index 1 is in range. The whole conversion raises on no input. Without
  these guards both reads would raise: index 0 of the empty line, and index 1 of the split
  of a line with no period and space.
\<close>

theorem classifier_never_raises:
  "(i < length lines \<longrightarrow> (\<exists>r. loop_body lines i doc = Inr r))
   \<and> (i < length lines \<and> strip (lines ! i) = [] \<longrightarrow> loop_body lines i doc = Inr (i + 1, doc))
   \<and> (line \<noteq> [] \<longrightarrow> index line 0 = Inr (hd line))
   \<and> (contains ''. '' (take 5 line) \<longrightarrow>
        (\<exists>b a. split_once ''. '' line = [b, a] \<and> index (split_once ''. '' line) 1 = Inr a))
   \<and> (\<exists>out. convert md_content = Some (Inr out))
   \<and> index ('''' :: string) 0 = Inl IndexError
   \<and> index (split_once ''. '' ''3.14 is pi'') 1 = Inl IndexError"
proof -
  have body: "i < length lines \<longrightarrow> (\<exists>r. loop_body lines i doc = Inr r)"
    using loop_body_emitted[of i lines doc] by blast
  have skip: "i < length lines \<and> strip (lines ! i) = [] \<longrightarrow> loop_body lines i doc = Inr (i + 1, doc)"
    using loop_body_empty[of i lines doc] by blast
  have first: "line \<noteq> [] \<longrightarrow> index line 0 = Inr (hd line)"
    by (simp add: index_def hd_conv_nth)
  have second: "contains ''. '' (take 5 line) \<longrightarrow>
        (\<exists>b a. split_once ''. '' line = [b, a] \<and> index (split_once ''. '' line) 1 = Inr a)"
  proof
    assume "contains ''. '' (take 5 line)"
    then have "contains ''. '' line" by (rule contains_take)
    then obtain b a where "split_once ''. '' line = [b, a]"
      using split_once_contains by blast
    then show "\<exists>b a. split_once ''. '' line = [b, a] \<and> index (split_once ''. '' line) 1 = Inr a"
      by (simp add: index_def)
  qed
  have whole: "\<exists>out. convert md_content = Some (Inr out)"
    by (simp add: convert_def convert_loop_eq)
  have e1: "index ('''' :: string) 0 = Inl IndexError" by (simp add: index_def)
  have e2: "index (split_once ''. '' ''3.14 is pi'') 1 = Inl IndexError" by code_simp
  from body skip first second whole e1 e2 show ?thesis by blast
qed

theorem classifier_never_raises_witness:
  "(\<exists>r. loop_body [''2nd. x''] 0 [] = Inr r)
   \<and> index ''2nd. x'' 0 = Inr (hd ''2nd. x'')
   \<and> (\<exists>b a. split_once ''. '' ''2nd. x'' = [b, a] \<and> index (split_once ''. '' ''2nd. x'') 1 = Inr a)"
proof -
  have h1: "0 < length [''2nd. x'']" by simp
  have h2: "''2nd. x'' \<noteq> []" by simp
  have h3: "contains ''. '' (take 5 ''2nd. x'')" by code_simp
  from classifier_never_raises[of 0 "[''2nd. x'']" "[]" "''2nd. x''"] h1 h2 h3
  show ?thesis by blast
qed

end
